theory Spec2Isabelle
  imports Main "HOL-Library.AList"
begin

section \<open>The Greenhouse client: data model\<close>

text \<open>
  The embedding follows \<^verbatim>\<open>source_greenhouse/client.py\<close>. Keyword arguments and
  records are Python dictionaries: association lists from field names to values, in
  insertion order. The values that occur are integers, strings and lists of strings
  (the \<^verbatim>\<open>nested_names\<close> list).
\<close>

datatype val = VInt int | VStr string | VList "string list"

type_synonym params = "(string \<times> val) list"

type_synonym row = "(string \<times> val) list"

text \<open>
  Exceptions are values. \<open>HTTPError m\<close> is \<^verbatim>\<open>grnhse.exceptions.HTTPError\<close> with
  \<^verbatim>\<open>str(error) = m\<close>; \<open>KeyError k\<close>, \<open>TypeError\<close> and \<open>IndexError\<close> are the
  built-in exceptions the client code itself can raise; \<open>OtherError m\<close> is any other
  exception coming out of the library (one that \<^verbatim>\<open>except HTTPError\<close> does not catch).
\<close>

datatype error = HTTPError string | KeyError string | TypeError | IndexError | OtherError string

fun is_http :: "error \<Rightarrow> bool" where
  "is_http (HTTPError m) = True"
| "is_http (KeyError k) = False"
| "is_http TypeError = False"
| "is_http IndexError = False"
| "is_http (OtherError m) = False"

text \<open>
  A resource accessor is named by the way the code obtains it:
  \<open>Direct n\<close> is \<^verbatim>\<open>getattr(self._client, n)\<close>,
  \<open>Scoped a kw\<close> is \<^verbatim>\<open>a(**kw)\<close> and
  \<open>Related a n\<close> is \<^verbatim>\<open>getattr(a, n)\<close>.
\<close>

datatype handle = Direct string | Scoped handle params | Related handle string

text \<open>The page requests an accessor is asked for: \<^verbatim>\<open>get(**params)\<close> and \<^verbatim>\<open>get_next()\<close>.\<close>

datatype event = EvGet handle params | EvNext handle

text \<open>
  Modelled from the spec: the Resource Accessor of the external \<^verbatim>\<open>grnhse\<close> library
  (section 3 of the specification), which is not part of the repository. Obtaining an
  accessor may raise (\<open>resolve\<close>); \<open>get\<close> answers the first page and leaves the accessor
  in a paging state of type \<open>'c\<close>; \<open>get_next\<close> answers the next page from that state;
  \<open>records_remaining\<close> is the accessor's flag. Scoping an accessor to an object id and
  reading its relations leave the paging state of the accessor itself untouched.
\<close>

record 'c harvest =
  resolve :: "handle \<Rightarrow> error option"
  get :: "handle \<Rightarrow> params \<Rightarrow> error + (row list \<times> 'c)"
  get_next :: "handle \<Rightarrow> 'c \<Rightarrow> error + (row list \<times> 'c)"
  records_remaining :: "handle \<Rightarrow> 'c \<Rightarrow> bool"

text \<open>
  What a generator has done once it is consumed to its end: the records it yielded, the
  page requests it issued, and the exception that ended it, if one did.
\<close>

record outcome =
  yielded :: "row list"
  requests :: "event list"
  raised :: "error option"

definition finished :: outcome where
  "finished = \<lparr>yielded = [], requests = [], raised = None\<rparr>"

definition failed :: "error \<Rightarrow> outcome" where
  "failed e = \<lparr>yielded = [], requests = [], raised = Some e\<rparr>"

definition emit :: "row list \<Rightarrow> event list \<Rightarrow> outcome \<Rightarrow> outcome" where
  "emit rs es out = out\<lparr>yielded := rs @ yielded out, requests := es @ requests out\<rparr>"

text \<open>
  Sequencing of two parts of a generator body: the second part runs only when the first
  one ended without an exception. \<open>None\<close> is a part that never returns.
\<close>

definition andthen :: "outcome option \<Rightarrow> outcome option \<Rightarrow> outcome option" where
  "andthen a b =
     (case a of
        None \<Rightarrow> None
      | Some out \<Rightarrow>
          if raised out = None then map_option (emit (yielded out) (requests out)) b
          else Some out)"

section \<open>The paginator\<close>

definition DEFAULT_ITEMS_PER_PAGE :: int where
  "DEFAULT_ITEMS_PER_PAGE = 100"

text \<open>
  \<^verbatim>\<open>while request.records_remaining: rows = request.get_next(); yield from rows\<close>.
  The loop has no bound of its own, so it is a partial function: \<open>None\<close> when the flag
  never turns false.
\<close>

partial_function (option) drain :: "'c harvest \<Rightarrow> handle \<Rightarrow> 'c \<Rightarrow> outcome option" where
  "drain h request c =
     (if records_remaining h request c then
        (case get_next h request c of
           Inl e \<Rightarrow> Some (emit [] [EvNext request] (failed e))
         | Inr (rows, c') \<Rightarrow>
             Option.bind (drain h request c') (\<lambda>out. Some (emit rows [EvNext request] out)))
      else Some finished)"

declare drain.simps [code]

text \<open>\<^verbatim>\<open>for row in rows: yield from body(row)\<close>\<close>

fun for_rows :: "(row \<Rightarrow> outcome option) \<Rightarrow> row list \<Rightarrow> outcome option" where
  "for_rows body [] = Some finished"
| "for_rows body (r # rs) = andthen (body r) (for_rows body rs)"

text \<open>\<^verbatim>\<open>len(nested_names)\<close> and \<^verbatim>\<open>nested_names[0]\<close> on a value.\<close>

fun len_val :: "val \<Rightarrow> error + nat" where
  "len_val (VList xs) = Inr (length xs)"
| "len_val (VStr s) = Inr (length s)"
| "len_val (VInt i) = Inl TypeError"

fun first_val :: "val \<Rightarrow> error + string" where
  "first_val (VList (x # xs)) = Inr x"
| "first_val (VList []) = Inl IndexError"
| "first_val (VStr (c # cs)) = Inr [c]"
| "first_val (VStr []) = Inl IndexError"
| "first_val (VInt i) = Inl TypeError"

text \<open>
  \<^verbatim>\<open>getattr(request(**params, object_id=row["id"]), nested_names[0])\<close>, its parts
  evaluated in Python's order: \<^verbatim>\<open>row["id"]\<close>, the merge of the keyword arguments (a
  \<^verbatim>\<open>TypeError\<close> when \<^verbatim>\<open>params\<close> has an \<^verbatim>\<open>object_id\<close> already), the call,
  \<^verbatim>\<open>nested_names[0]\<close>, the attribute lookup.
\<close>

definition child_of :: "'c harvest \<Rightarrow> handle \<Rightarrow> params \<Rightarrow> val \<Rightarrow> row \<Rightarrow> error + handle" where
  "child_of h request params nested_names row =
     (case map_of row ''id'' of
        None \<Rightarrow> Inl (KeyError ''id'')
      | Some oid \<Rightarrow>
          if map_of params ''object_id'' \<noteq> None then Inl TypeError
          else
            (let scoped = Scoped request (params @ [(''object_id'', oid)]) in
             case resolve h scoped of
               Some e \<Rightarrow> Inl e
             | None \<Rightarrow>
                 (case first_val nested_names of
                    Inl e \<Rightarrow> Inl e
                  | Inr n \<Rightarrow>
                      (case resolve h (Related scoped n) of
                         Some e \<Rightarrow> Inl e
                       | None \<Rightarrow> Inr (Related scoped n)))))"

text \<open>
  \<^verbatim>\<open>paginator(request, **params)\<close>. After \<^verbatim>\<open>params.pop("nested_names", None)\<close>
  the key is gone, so \<^verbatim>\<open>params["nested_names"][1:]\<close> in the branch
  \<^verbatim>\<open>len(nested_names) > 1\<close> raises \<^verbatim>\<open>KeyError\<close>. The recursive call passes no
  keyword arguments. The closing loop yields the rows of the later pages as they are.
\<close>

function paginator :: "'c harvest \<Rightarrow> handle \<Rightarrow> params \<Rightarrow> outcome option" where
  "paginator h request params =
     (case get h request params of
        Inl e \<Rightarrow> Some (emit [] [EvGet request params] (failed e))
      | Inr (rows, c) \<Rightarrow>
          map_option (emit [] [EvGet request params])
            (andthen
              (case map_of params ''nested_names'' of
                 Some nested_names \<Rightarrow>
                   (case len_val nested_names of
                      Inl e \<Rightarrow> Some (failed e)
                    | Inr n \<Rightarrow>
                        if n > 1 then Some (failed (KeyError ''nested_names''))
                        else
                          for_rows
                            (\<lambda>row.
                               case child_of h request (AList.delete ''nested_names'' params)
                                      nested_names row of
                                 Inl e \<Rightarrow> Some (failed e)
                               | Inr child \<Rightarrow> paginator h child [])
                            rows)
               | None \<Rightarrow> Some (emit rows [] finished))
              (drain h request c)))"
  by pat_completeness auto
termination
  by (relation "measure (\<lambda>(h, request, params).
        if map_of params ''nested_names'' = None then 0 else 1)") auto

declare paginator.simps [simp del]

section \<open>The client\<close>

definition ENTITIES :: "string list" where
  "ENTITIES =
     [''applications'',
      ''candidates'',
      ''close_reasons'',
      ''degrees'',
      ''departments'',
      ''job_posts'',
      ''jobs'',
      ''offers'',
      ''scorecards'',
      ''users'',
      ''custom_fields'',
      ''demographics_question_sets'',
      ''demographics_questions'',
      ''demographics_answer_options'',
      ''demographics_answers'',
      ''applications.demographics_answers'',
      ''demographics_question_sets.questions'',
      ''demographics_answers.answer_options'',
      ''interviews'',
      ''applications.interviews'',
      ''sources'',
      ''rejection_reasons'',
      ''jobs.openings'',
      ''job_stages'',
      ''jobs.stages'']"

text \<open>\<^verbatim>\<open>name.split(".")\<close>: never the empty list.\<close>

fun split_dot :: "string \<Rightarrow> string list" where
  "split_dot [] = [[]]"
| "split_dot (c # cs) =
     (if c = CHR ''.'' then [] # split_dot cs
      else (case split_dot cs of
              [] \<Rightarrow> [[c]]
            | p # ps \<Rightarrow> (c # p) # ps))"

text \<open>The keyword arguments \<^verbatim>\<open>Client.list\<close> hands to the paginator.\<close>

definition list_kwargs :: "string \<Rightarrow> params \<Rightarrow> params" where
  "list_kwargs name kwargs =
     (let name_parts = split_dot name;
          nested_names = tl name_parts;
          kwargs1 = AList.update ''per_page'' (VInt DEFAULT_ITEMS_PER_PAGE) kwargs
      in if nested_names \<noteq> [] then AList.update ''nested_names'' (VList nested_names) kwargs1
         else kwargs1)"

text \<open>\<^verbatim>\<open>Client.list(name, **kwargs)\<close>\<close>

definition client_list :: "'c harvest \<Rightarrow> string \<Rightarrow> params \<Rightarrow> outcome option" where
  "client_list h name kwargs =
     (let name_parts = split_dot name;
          root = Direct (hd name_parts)
      in case resolve h root of
           Some e \<Rightarrow> Some (failed e)
         | None \<Rightarrow> paginator h root (list_kwargs name kwargs))"

text \<open>\<^verbatim>\<open>pat in s\<close> on strings.\<close>

fun starts_with :: "string \<Rightarrow> string \<Rightarrow> bool" where
  "starts_with [] s = True"
| "starts_with (p # ps) [] = False"
| "starts_with (p # ps) (c # cs) = (p = c \<and> starts_with ps cs)"

fun contains_str :: "string \<Rightarrow> string \<Rightarrow> bool" where
  "contains_str pat [] = (pat = [])"
| "contains_str pat (c # cs) = (starts_with pat (c # cs) \<or> contains_str pat cs)"

definition PERMISSION_MESSAGE :: string where
  "PERMISSION_MESSAGE = ''This API Key does not have permission for this endpoint''"

definition GRANT_MESSAGE :: string where
  "GRANT_MESSAGE = ''Your API Key does not have permission for any existing endpoints. Please grant read permissions for required streams/endpoints''"

text \<open>
  The body of the \<^verbatim>\<open>try\<close> in \<^verbatim>\<open>get_accessible_endpoints\<close>:
  \<^verbatim>\<open>getattr(self._client, entity).get()\<close>, with the page request it issues and the
  exception it ends with, if any.
\<close>

definition probe :: "'c harvest \<Rightarrow> string \<Rightarrow> event list \<times> error option" where
  "probe h entity =
     (case resolve h (Direct entity) of
        Some e \<Rightarrow> ([], Some e)
      | None \<Rightarrow>
          (case get h (Direct entity) [] of
             Inl e \<Rightarrow> ([EvGet (Direct entity) []], Some e)
           | Inr page \<Rightarrow> ([EvGet (Direct entity) []], None)))"

text \<open>
  The loop of \<^verbatim>\<open>get_accessible_endpoints\<close> over the entities still to probe, with the
  list \<^verbatim>\<open>accessible_endpoints\<close> built so far. Only an \<^verbatim>\<open>HTTPError\<close> is caught, and
  it is raised again unless its text holds the permission message. The logger calls are
  left out.
\<close>

fun probe_loop ::
  "'c harvest \<Rightarrow> string list \<Rightarrow> string list \<Rightarrow> event list \<times> (error + string list)" where
  "probe_loop h [] accessible_endpoints = ([], Inr accessible_endpoints)"
| "probe_loop h (entity # entities) accessible_endpoints =
     (case probe h entity of
        (evs, None) \<Rightarrow>
          (case probe_loop h entities (accessible_endpoints @ [entity]) of
             (evs', r) \<Rightarrow> (evs @ evs', r))
      | (evs, Some err) \<Rightarrow>
          (case err of
             HTTPError m \<Rightarrow>
               if \<not> contains_str PERMISSION_MESSAGE m then (evs, Inl err)
               else (case probe_loop h entities accessible_endpoints of
                       (evs', r) \<Rightarrow> (evs @ evs', r))
           | _ \<Rightarrow> (evs, Inl err)))"

definition get_accessible_endpoints :: "'c harvest \<Rightarrow> event list \<times> (error + string list)" where
  "get_accessible_endpoints h = probe_loop h ENTITIES []"

text \<open>\<^verbatim>\<open>health_check\<close>: \<open>Inl\<close> is an exception that leaves the method.\<close>

definition health_check :: "'c harvest \<Rightarrow> error + (bool \<times> string option)" where
  "health_check h =
     (case snd (get_accessible_endpoints h) of
        Inr accessible_endpoints \<Rightarrow>
          if accessible_endpoints = [] then Inr (False, Some GRANT_MESSAGE)
          else Inr (True, None)
      | Inl err \<Rightarrow>
          (case err of
             HTTPError m \<Rightarrow> Inr (False, Some m)
           | _ \<Rightarrow> Inl err))"

section \<open>Observing a generator that need not end\<close>

text \<open>
  \<open>paginator\<close> has no value when a flag never turns false, although the generator has
  yielded records and issued requests by then. The functions below give what an
  observer has seen of the same generator when each \<^verbatim>\<open>while\<close> loop is followed for at
  most \<open>n\<close> iterations: a prefix of the run, and \<open>True\<close> when that prefix is the whole
  run.
\<close>

text \<open>
  The closing loop cut after at most \<open>n\<close> iterations: what it has yielded and requested
  up to there, and whether it has ended (the flag turned false, or \<^verbatim>\<open>get_next\<close>
  raised).
\<close>

fun drain_upto :: "nat \<Rightarrow> 'c harvest \<Rightarrow> handle \<Rightarrow> 'c \<Rightarrow> outcome \<times> bool" where
  "drain_upto 0 h request c =
     (if records_remaining h request c then (finished, False) else (finished, True))"
| "drain_upto (Suc n) h request c =
     (if records_remaining h request c then
        (case get_next h request c of
           Inl e \<Rightarrow> (emit [] [EvNext request] (failed e), True)
         | Inr (rows, c') \<Rightarrow>
             (case drain_upto n h request c' of
                (out, ended) \<Rightarrow> (emit rows [EvNext request] out, ended)))
      else (finished, True))"

text \<open>Sequencing: nothing runs after a part that was cut.\<close>

definition andthen_upto :: "outcome \<times> bool \<Rightarrow> outcome \<times> bool \<Rightarrow> outcome \<times> bool" where
  "andthen_upto a b =
     (case a of
        (out, ended) \<Rightarrow>
          if \<not> ended then (out, False)
          else if raised out = None then
            (case b of (out', ended') \<Rightarrow> (emit (yielded out) (requests out) out', ended'))
          else (out, True))"

fun for_rows_upto :: "(row \<Rightarrow> outcome \<times> bool) \<Rightarrow> row list \<Rightarrow> outcome \<times> bool" where
  "for_rows_upto body [] = (finished, True)"
| "for_rows_upto body (r # rs) = andthen_upto (body r) (for_rows_upto body rs)"

text \<open>
  \<^verbatim>\<open>paginator(request, **params)\<close> again, statement by statement, with every closing
  loop cut after \<open>n\<close> iterations.
\<close>

function paginator_upto :: "nat \<Rightarrow> 'c harvest \<Rightarrow> handle \<Rightarrow> params \<Rightarrow> outcome \<times> bool" where
  "paginator_upto n h request params =
     (case get h request params of
        Inl e \<Rightarrow> (emit [] [EvGet request params] (failed e), True)
      | Inr (rows, c) \<Rightarrow>
          (case andthen_upto
                  (case map_of params ''nested_names'' of
                     Some nested_names \<Rightarrow>
                       (case len_val nested_names of
                          Inl e \<Rightarrow> (failed e, True)
                        | Inr k \<Rightarrow>
                            if k > 1 then (failed (KeyError ''nested_names''), True)
                            else
                              for_rows_upto
                                (\<lambda>row.
                                   case child_of h request (AList.delete ''nested_names'' params)
                                          nested_names row of
                                     Inl e \<Rightarrow> (failed e, True)
                                   | Inr child \<Rightarrow> paginator_upto n h child [])
                                rows)
                   | None \<Rightarrow> (emit rows [] finished, True))
                  (drain_upto n h request c) of
             (out, ended) \<Rightarrow> (emit [] [EvGet request params] out, ended)))"
  by pat_completeness auto
termination
  by (relation "measure (\<lambda>(n, h, request, params).
        if map_of params ''nested_names'' = None then 0 else 1)") auto

declare paginator_upto.simps [simp del]

text \<open>\<^verbatim>\<open>Client.list(name, **kwargs)\<close> observed in the same way.\<close>

definition client_list_upto :: "nat \<Rightarrow> 'c harvest \<Rightarrow> string \<Rightarrow> params \<Rightarrow> outcome \<times> bool" where
  "client_list_upto n h name kwargs =
     (let name_parts = split_dot name;
          root = Direct (hd name_parts)
      in case resolve h root of
           Some e \<Rightarrow> (failed e, True)
         | None \<Rightarrow> paginator_upto n h root (list_kwargs name kwargs))"


fun sized_100 :: "event \<Rightarrow> bool" where
  "sized_100 (EvGet a ps) = (map_of ps ''per_page'' = Some (VInt DEFAULT_ITEMS_PER_PAGE))"
| "sized_100 (EvNext a) = True"

section \<open>Accessors that serve a given sequence of pages\<close>



text \<open>
  A simulated library over a table of pages: the paging state is the list of pages not
  yet fetched, and the flag is true while that list is not empty.
\<close>

definition paged :: "(handle \<Rightarrow> params \<Rightarrow> error + row list list) \<Rightarrow> (row list list) harvest" where
  "paged server =
     \<lparr>resolve = (\<lambda>a. None),
      get = (\<lambda>a ps. case server a ps of
                       Inl e \<Rightarrow> Inl e
                     | Inr [] \<Rightarrow> Inr ([], [])
                     | Inr (p # rest) \<Rightarrow> Inr (p, rest)),
      get_next = (\<lambda>a c. case c of [] \<Rightarrow> Inr ([], []) | p # rest \<Rightarrow> Inr (p, rest)),
      records_remaining = (\<lambda>a c. c \<noteq> [])\<rparr>"

definition mk_row :: "int \<Rightarrow> string \<Rightarrow> row" where
  "mk_row i kind = [(''id'', VInt i), (''kind'', VStr kind)]"

text \<open>
  A sample remote: three candidates on two pages, two jobs on two pages with one opening
  each, three applications on one page with two demographics answers each (on two pages).
\<close>

fun demo_server :: "handle \<Rightarrow> params \<Rightarrow> error + row list list" where
  "demo_server (Direct n) ps =
     (if n = ''candidates'' then
        Inr [[mk_row 1 ''candidate'', mk_row 2 ''candidate''], [mk_row 3 ''candidate'']]
      else if n = ''jobs'' then Inr [[mk_row 1 ''job''], [mk_row 2 ''job'']]
      else if n = ''applications'' then
        Inr [[mk_row 1 ''application'', mk_row 2 ''application'', mk_row 3 ''application'']]
      else Inr [[]])"
| "demo_server (Related (Scoped (Direct p) kw) n) ps =
     (case map_of kw ''object_id'' of
        Some (VInt i) \<Rightarrow>
          if p = ''jobs'' \<and> n = ''openings'' then Inr [[mk_row (100 + i) ''opening'']]
          else if p = ''applications'' \<and> n = ''demographics_answers'' then
            Inr [[mk_row (10 * i) ''answer''], [mk_row (10 * i + 1) ''answer'']]
          else Inr [[]]
      | _ \<Rightarrow> Inl (OtherError ''no object id''))"
| "demo_server a ps = Inl (OtherError ''not a collection'')"

text \<open>A remote whose collections are empty, except that reading some of them fails.\<close>

definition failing_server :: "(string \<Rightarrow> error option) \<Rightarrow> handle \<Rightarrow> params \<Rightarrow> error + row list list" where
  "failing_server verdict a ps =
     (case a of
        Direct n \<Rightarrow> (case verdict n of Some e \<Rightarrow> Inl e | None \<Rightarrow> Inr [[]])
      | _ \<Rightarrow> Inr [[]])"

text \<open>
  Verdicts for the samples of the access prober: two endpoints denied; every endpoint
  denied; one endpoint denied and a later one failing with a server error; one endpoint
  failing with an exception that is not an \<^verbatim>\<open>HTTPError\<close>.
\<close>

definition DENIED_MESSAGE :: string where
  "DENIED_MESSAGE = ''403: This API Key does not have permission for this endpoint''"

definition SERVER_ERROR_MESSAGE :: string where
  "SERVER_ERROR_MESSAGE = ''500: Internal Server Error''"

definition some_denied :: "string \<Rightarrow> error option" where
  "some_denied n =
     (if n = ''offers'' \<or> n = ''users'' then Some (HTTPError DENIED_MESSAGE) else None)"

definition all_denied :: "string \<Rightarrow> error option" where
  "all_denied n = Some (HTTPError DENIED_MESSAGE)"

definition server_error :: "string \<Rightarrow> error option" where
  "server_error n =
     (if n = ''offers'' then Some (HTTPError DENIED_MESSAGE)
      else if n = ''scorecards'' then Some (HTTPError SERVER_ERROR_MESSAGE)
      else None)"

definition connection_lost :: "string \<Rightarrow> error option" where
  "connection_lost n = (if n = ''jobs'' then Some (OtherError ''connection reset'') else None)"



section \<open>Auxiliary facts\<close>










lemma denied_is_permission: "contains_str PERMISSION_MESSAGE DENIED_MESSAGE"
  by (simp add: PERMISSION_MESSAGE_def DENIED_MESSAGE_def)

lemma server_error_is_fatal: "\<not> contains_str PERMISSION_MESSAGE SERVER_ERROR_MESSAGE"
  by (simp add: PERMISSION_MESSAGE_def SERVER_ERROR_MESSAGE_def)

lemma probe_events: "set (fst (probe h e)) \<subseteq> {EvGet (Direct e) []}"
  by (simp add: probe_def split: option.splits sum.splits)

lemma probe_loop_fatal:
  "(\<And>e. e \<in> set pre \<Longrightarrow>
      snd (probe h e) = None \<or>
      (\<exists>m. snd (probe h e) = Some (HTTPError m) \<and> contains_str PERMISSION_MESSAGE m)) \<Longrightarrow>
   snd (probe h E) = Some err \<Longrightarrow>
   \<not> (\<exists>m. err = HTTPError m \<and> contains_str PERMISSION_MESSAGE m) \<Longrightarrow>
   probe_loop h (pre @ E # post) acc =
     (concat (map (\<lambda>e. fst (probe h e)) (pre @ [E])), Inl err)"
proof (induction pre arbitrary: acc)
  case Nil
  then show ?case
    by (cases "probe h E"; cases err) simp_all
next
  case (Cons e pre)
  have rest: "probe_loop h (pre @ E # post) acc' =
      (concat (map (\<lambda>e. fst (probe h e)) (pre @ [E])), Inl err)" for acc'
    by (rule Cons.IH) (simp_all add: Cons.prems)
  have "snd (probe h e) = None \<or>
      (\<exists>m. snd (probe h e) = Some (HTTPError m) \<and> contains_str PERMISSION_MESSAGE m)"
    by (rule Cons.prems) simp
  then show ?case
    by (cases "probe h e") (auto simp add: rest)
qed

lemma distinct_ENTITIES: "distinct ENTITIES"
  by (simp add: ENTITIES_def)

lemma probe_loop_all_settled:
  "(\<And>e. e \<in> set es \<Longrightarrow>
      (e \<in> D \<longrightarrow> (\<exists>m. snd (probe h e) = Some (HTTPError m) \<and> contains_str PERMISSION_MESSAGE m)) \<and>
      (e \<notin> D \<longrightarrow> snd (probe h e) = None)) \<Longrightarrow>
   probe_loop h es acc =
     (concat (map (\<lambda>e. fst (probe h e)) es), Inr (acc @ filter (\<lambda>e. e \<notin> D) es))"
proof (induction es arbitrary: acc)
  case Nil
  show ?case by simp
next
  case (Cons e es)
  have rest: "probe_loop h es acc' =
      (concat (map (\<lambda>e. fst (probe h e)) es), Inr (acc' @ filter (\<lambda>e. e \<notin> D) es))" for acc'
    by (rule Cons.IH) (simp add: Cons.prems)
  have here: "(e \<in> D \<longrightarrow> (\<exists>m. snd (probe h e) = Some (HTTPError m) \<and> contains_str PERMISSION_MESSAGE m)) \<and>
      (e \<notin> D \<longrightarrow> snd (probe h e) = None)"
    by (rule Cons.prems) simp
  show ?case
  proof (cases "e \<in> D")
    case True
    with here obtain m where "snd (probe h e) = Some (HTTPError m)" "contains_str PERMISSION_MESSAGE m"
      by blast
    then show ?thesis
      using True by (cases "probe h e") (simp add: rest)
  next
    case False
    with here have "snd (probe h e) = None" by blast
    then show ?thesis
      using False by (cases "probe h e") (simp add: rest)
  qed
qed

lemma all_denied_endpoints:
  "snd (get_accessible_endpoints (paged (failing_server all_denied))) = Inr []"
proof -
  have "snd (probe (paged (failing_server all_denied)) e) = Some (HTTPError DENIED_MESSAGE)" for e
    by (simp add: probe_def paged_def failing_server_def all_denied_def)
  then have "probe_loop (paged (failing_server all_denied)) ENTITIES [] =
      (concat (map (\<lambda>e. fst (probe (paged (failing_server all_denied)) e)) ENTITIES),
       Inr ([] @ filter (\<lambda>e. e \<notin> UNIV) ENTITIES))"
    using denied_is_permission by (intro probe_loop_all_settled) auto
  then show ?thesis
    by (simp add: get_accessible_endpoints_def)
qed

lemma connection_lost_endpoints:
  "snd (get_accessible_endpoints (paged (failing_server connection_lost))) =
     Inl (OtherError ''connection reset'')"
  by (simp add: get_accessible_endpoints_def ENTITIES_def probe_def paged_def
      failing_server_def connection_lost_def)

lemma server_error_endpoints:
  "snd (get_accessible_endpoints (paged (failing_server server_error))) =
     Inl (HTTPError SERVER_ERROR_MESSAGE)"
  by (simp add: get_accessible_endpoints_def ENTITIES_def probe_def paged_def
      failing_server_def server_error_def denied_is_permission server_error_is_fatal)

lemma demo_endpoints: "snd (get_accessible_endpoints (paged demo_server)) = Inr ENTITIES"
  by (simp add: get_accessible_endpoints_def ENTITIES_def probe_def paged_def)










lemmas list_eval = client_list_def list_kwargs_def paged_def DEFAULT_ITEMS_PER_PAGE_def
  andthen_def emit_def finished_def failed_def child_of_def mk_row_def Let_def
  paginator.simps drain.simps

lemma demo_list_per_page_5:
  "client_list (paged demo_server) ''jobs.openings'' [(''per_page'', VInt 5)] =
     Some \<lparr>yielded = [mk_row 101 ''opening'', mk_row 2 ''job''],
           requests =
             [EvGet (Direct ''jobs'')
                [(''per_page'', VInt 100), (''nested_names'', VList [''openings''])],
              EvGet (Related (Scoped (Direct ''jobs'')
                       [(''per_page'', VInt 100), (''object_id'', VInt 1)]) ''openings'') [],
              EvNext (Direct ''jobs'')],
           raised = None\<rparr>"
  by (simp add: list_eval)


text \<open>
  The observations agree with the paginator. An observation that has ended is the value
  of the paginator (\<open>client_list_upto_complete\<close>), and a run that ends is observed
  whole from some bound on (\<open>client_list_observed\<close>); an observation that is cut is a
  prefix of a run that has not ended within the bound.
\<close>

lemma drain_upto_complete:
  "drain_upto n h a c = (out, True) \<Longrightarrow> drain h a c = Some out"
proof (induction n arbitrary: c out)
  case 0
  then show ?case
    by (subst drain.simps) (auto split: if_splits)
next
  case (Suc n)
  show ?case
  proof (cases "records_remaining h a c")
    case False
    with Suc.prems show ?thesis by (subst drain.simps) auto
  next
    case True
    show ?thesis
    proof (cases "get_next h a c")
      case (Inl e)
      with True Suc.prems show ?thesis by (subst drain.simps) auto
    next
      case (Inr page)
      obtain rows c' where page: "page = (rows, c')" by (cases page)
      obtain o' e' where d: "drain_upto n h a c' = (o', e')" by (cases "drain_upto n h a c'")
      with True Inr page Suc.prems have "e' = True" "out = emit rows [EvNext a] o'" by auto
      with d Suc.IH have "drain h a c' = Some o'" by simp
      with True Inr page \<open>out = emit rows [EvNext a] o'\<close> show ?thesis
        by (subst drain.simps) simp
    qed
  qed
qed

lemma andthen_upto_complete:
  assumes "andthen_upto a b = (out, True)"
    and "\<And>o1. a = (o1, True) \<Longrightarrow> a' = Some o1"
    and "\<And>o2. b = (o2, True) \<Longrightarrow> b' = Some o2"
  shows "andthen a' b' = Some out"
  using assms
  by (cases a; cases b) (auto simp add: andthen_upto_def andthen_def split: if_splits)

lemma for_rows_upto_complete:
  "for_rows_upto bodyU rows = (out, True) \<Longrightarrow>
   (\<And>r o1. bodyU r = (o1, True) \<Longrightarrow> body r = Some o1) \<Longrightarrow>
   for_rows body rows = Some out"
proof (induction rows arbitrary: out)
  case Nil
  then show ?case by simp
next
  case (Cons r rows)
  from Cons.prems(1) have "andthen_upto (bodyU r) (for_rows_upto bodyU rows) = (out, True)"
    by simp
  then have "andthen (body r) (for_rows body rows) = Some out"
    by (rule andthen_upto_complete) (auto intro: Cons.prems(2) Cons.IH)
  then show ?case by simp
qed

lemma paginator_upto_flat_complete:
  assumes "paginator_upto n h a [] = (out, True)"
  shows "paginator h a [] = Some out"
proof (cases "get h a []")
  case (Inl e)
  with assms show ?thesis
    by (simp add: paginator_upto.simps [of n h a "[]"] paginator.simps [of h a "[]"])
next
  case (Inr page)
  obtain rows c where page: "page = (rows, c)" by (cases page)
  obtain o2 e2 where d: "drain_upto n h a c = (o2, e2)" by (cases "drain_upto n h a c")
  with assms Inr page have "e2 = True" "out = emit [] [EvGet a []] (emit rows [] o2)"
    by (auto simp add: paginator_upto.simps [of n h a "[]"] andthen_upto_def emit_def finished_def)
  moreover from d \<open>e2 = True\<close> have "drain h a c = Some o2"
    by (simp add: drain_upto_complete)
  ultimately show ?thesis
    using Inr page
    by (simp add: paginator.simps [of h a "[]"] andthen_def emit_def finished_def)
qed

lemma paginator_upto_complete:
  assumes "paginator_upto n h a ps = (out, True)"
  shows "paginator h a ps = Some out"
proof (cases "get h a ps")
  case (Inl e)
  with assms show ?thesis
    by (simp add: paginator_upto.simps [of n h a ps] paginator.simps [of h a ps])
next
  case (Inr page)
  obtain rows c where page: "page = (rows, c)" by (cases page)
  let ?firstU = "case map_of ps ''nested_names'' of
                   Some nested_names \<Rightarrow>
                     (case len_val nested_names of
                        Inl e \<Rightarrow> (failed e, True)
                      | Inr k \<Rightarrow>
                          if k > 1 then (failed (KeyError ''nested_names''), True)
                          else
                            for_rows_upto
                              (\<lambda>row.
                                 case child_of h a (AList.delete ''nested_names'' ps)
                                        nested_names row of
                                   Inl e \<Rightarrow> (failed e, True)
                                 | Inr child \<Rightarrow> paginator_upto n h child [])
                              rows)
                 | None \<Rightarrow> (emit rows [] finished, True)"
  let ?first = "case map_of ps ''nested_names'' of
                 Some nested_names \<Rightarrow>
                   (case len_val nested_names of
                      Inl e \<Rightarrow> Some (failed e)
                    | Inr k \<Rightarrow>
                        if k > 1 then Some (failed (KeyError ''nested_names''))
                        else
                          for_rows
                            (\<lambda>row.
                               case child_of h a (AList.delete ''nested_names'' ps)
                                      nested_names row of
                                 Inl e \<Rightarrow> Some (failed e)
                               | Inr child \<Rightarrow> paginator h child [])
                            rows)
               | None \<Rightarrow> Some (emit rows [] finished)"
  obtain o3 e3 where seq: "andthen_upto ?firstU (drain_upto n h a c) = (o3, e3)"
    by (cases "andthen_upto ?firstU (drain_upto n h a c)")
  with assms Inr page have e3: "e3 = True" and out: "out = emit [] [EvGet a ps] o3"
    by (auto simp add: paginator_upto.simps [of n h a ps])
  have first: "?first = Some o1" if "?firstU = (o1, True)" for o1
    using that
    by (auto split: option.splits sum.splits if_splits
        elim!: for_rows_upto_complete dest: paginator_upto_flat_complete)
  from seq e3 have "andthen ?first (drain h a c) = Some o3"
    by (intro andthen_upto_complete [where a = "?firstU" and b = "drain_upto n h a c"])
      (auto dest: first drain_upto_complete)
  with Inr page out show ?thesis
    by (simp add: paginator.simps [of h a ps])
qed

lemma client_list_upto_complete:
  "client_list_upto n h name kwargs = (out, True) \<Longrightarrow> client_list h name kwargs = Some out"
  by (auto simp add: client_list_upto_def client_list_def Let_def
      split: option.splits dest: paginator_upto_complete)


lemma andthen_upto_raised:
  "raised o1 \<noteq> None \<Longrightarrow> andthen_upto (o1, True) b = (o1, True)"
  by (auto simp add: andthen_upto_def)

lemma andthen_upto_ok:
  "raised o1 = None \<Longrightarrow>
   andthen_upto (o1, True) (o2, e) = (emit (yielded o1) (requests o1) o2, e)"
  by (simp add: andthen_upto_def)

lemma drain_upto_mono:
  "drain_upto n h a c = (out, True) \<Longrightarrow> n \<le> m \<Longrightarrow> drain_upto m h a c = (out, True)"
proof (induction n arbitrary: m c out)
  case 0
  then show ?case by (cases m) (auto split: if_splits)
next
  case (Suc n)
  from Suc.prems(2) obtain m' where m: "m = Suc m'" and le: "n \<le> m'" by (cases m) auto
  show ?case
  proof (cases "records_remaining h a c")
    case False
    with Suc.prems(1) show ?thesis by (simp add: m)
  next
    case True
    show ?thesis
    proof (cases "get_next h a c")
      case (Inl e)
      with True Suc.prems(1) show ?thesis by (simp add: m)
    next
      case (Inr page)
      obtain rows c' where page: "page = (rows, c')" by (cases page)
      obtain o' e' where d: "drain_upto n h a c' = (o', e')" by (cases "drain_upto n h a c'")
      with True Inr page Suc.prems(1) have "e' = True" "out = emit rows [EvNext a] o'" by auto
      with d have "drain_upto n h a c' = (o', True)" by simp
      then have "drain_upto m' h a c' = (o', True)" using le by (rule Suc.IH)
      with True Inr page \<open>out = emit rows [EvNext a] o'\<close> show ?thesis by (simp add: m)
    qed
  qed
qed

lemma drain_observed:
  assumes "drain h a c = Some out"
  shows "\<exists>n. drain_upto n h a c = (out, True)"
proof (rule drain.raw_induct [where P = "\<lambda>h a c out. \<exists>n. drain_upto n h a c = (out, True)", OF _ assms])
  fix d :: "'a harvest \<Rightarrow> handle \<Rightarrow> 'a \<Rightarrow> outcome option" and h' a' c' out'
  assume IH: "\<And>h a c out. d h a c = Some out \<Longrightarrow> \<exists>n. drain_upto n h a c = (out, True)"
    and step: "(if records_remaining h' a' c' then
        (case get_next h' a' c' of
           Inl e \<Rightarrow> Some (emit [] [EvNext a'] (failed e))
         | Inr (rows, c'') \<Rightarrow>
             Option.bind (d h' a' c'') (\<lambda>out. Some (emit rows [EvNext a'] out)))
      else Some finished) = Some out'"
  show "\<exists>n. drain_upto n h' a' c' = (out', True)"
  proof (cases "records_remaining h' a' c'")
    case False
    with step have "drain_upto 0 h' a' c' = (out', True)" by simp
    then show ?thesis ..
  next
    case True
    show ?thesis
    proof (cases "get_next h' a' c'")
      case (Inl e)
      with True step have "drain_upto (Suc 0) h' a' c' = (out', True)" by simp
      then show ?thesis ..
    next
      case (Inr page)
      obtain rows c'' where page: "page = (rows, c'')" by (cases page)
      with True Inr step obtain o' where o': "d h' a' c'' = Some o'" "out' = emit rows [EvNext a'] o'"
        by (auto split: Option.bind_splits)
      from IH [OF o'(1)] obtain n where "drain_upto n h' a' c'' = (o', True)" ..
      with True Inr page o'(2) have "drain_upto (Suc n) h' a' c' = (out', True)" by simp
      then show ?thesis ..
    qed
  qed
qed

lemma paginator_upto_flat_mono:
  assumes "paginator_upto n h a [] = (out, True)" and "n \<le> m"
  shows "paginator_upto m h a [] = (out, True)"
proof (cases "get h a []")
  case (Inl e)
  with assms show ?thesis
    by (simp add: paginator_upto.simps [of _ h a "[]"])
next
  case (Inr page)
  obtain rows c where page: "page = (rows, c)" by (cases page)
  obtain o2 e2 where d: "drain_upto n h a c = (o2, e2)" by (cases "drain_upto n h a c")
  with assms(1) Inr page have "e2 = True" and out: "out = emit [] [EvGet a []] (emit rows [] o2)"
    by (auto simp add: paginator_upto.simps [of n h a "[]"] andthen_upto_def emit_def finished_def)
  with d have "drain_upto n h a c = (o2, True)" by simp
  then have "drain_upto m h a c = (o2, True)" using assms(2) by (rule drain_upto_mono)
  with Inr page out show ?thesis
    by (simp add: paginator_upto.simps [of m h a "[]"] andthen_upto_def emit_def finished_def)
qed

lemma paginator_flat_observed:
  assumes "paginator h a [] = Some out"
  shows "\<exists>n. paginator_upto n h a [] = (out, True)"
proof (cases "get h a []")
  case (Inl e)
  with assms have "paginator_upto 0 h a [] = (out, True)"
    by (simp add: paginator_upto.simps [of _ h a "[]"] paginator.simps [of h a "[]"])
  then show ?thesis ..
next
  case (Inr page)
  obtain rows c where page: "page = (rows, c)" by (cases page)
  from assms Inr page obtain o2 where
    d: "drain h a c = Some o2" and out: "out = emit [] [EvGet a []] (emit rows [] o2)"
    by (auto simp add: paginator.simps [of h a "[]"] andthen_def emit_def finished_def)
  from drain_observed [OF d] obtain n where "drain_upto n h a c = (o2, True)" ..
  with Inr page out have "paginator_upto n h a [] = (out, True)"
    by (simp add: paginator_upto.simps [of n h a "[]"] andthen_upto_def emit_def finished_def)
  then show ?thesis ..
qed

lemma for_rows_observed:
  fixes body :: "row \<Rightarrow> outcome option" and bodyU :: "nat \<Rightarrow> row \<Rightarrow> outcome \<times> bool"
  assumes obs: "\<And>r o1. body r = Some o1 \<Longrightarrow> \<exists>n. bodyU n r = (o1, True)"
    and mono: "\<And>n m r o1. bodyU n r = (o1, True) \<Longrightarrow> n \<le> m \<Longrightarrow> bodyU m r = (o1, True)"
  shows "for_rows body rows = Some out \<Longrightarrow>
         \<exists>n. \<forall>m\<ge>n. for_rows_upto (bodyU m) rows = (out, True)"
proof (induction rows arbitrary: out)
  case Nil
  then show ?case by simp
next
  case (Cons r rows)
  from Cons.prems obtain o1 where o1: "body r = Some o1"
    by (auto simp add: andthen_def split: option.splits)
  from obs [OF o1] obtain n1 where n1: "bodyU n1 r = (o1, True)" ..
  show ?case
  proof (cases "raised o1 = None")
    case False
    with Cons.prems o1 have "out = o1" by (simp add: andthen_def)
    have "\<forall>m\<ge>n1. for_rows_upto (bodyU m) (r # rows) = (out, True)"
    proof (intro allI impI)
      fix m assume "n1 \<le> m"
      with n1 have "bodyU m r = (o1, True)" by (rule mono)
      with False \<open>out = o1\<close> show "for_rows_upto (bodyU m) (r # rows) = (out, True)"
        by (simp add: andthen_upto_raised)
    qed
    then show ?thesis ..
  next
    case True
    with Cons.prems o1 obtain o2 where
      o2: "for_rows body rows = Some o2" and out: "out = emit (yielded o1) (requests o1) o2"
      by (auto simp add: andthen_def)
    from Cons.IH [OF o2] obtain n2 where
      n2: "\<forall>m\<ge>n2. for_rows_upto (bodyU m) rows = (o2, True)" ..
    have "\<forall>m\<ge>max n1 n2. for_rows_upto (bodyU m) (r # rows) = (out, True)"
    proof (intro allI impI)
      fix m assume m: "max n1 n2 \<le> m"
      then have "n1 \<le> m" by simp
      with n1 have "bodyU m r = (o1, True)" by (rule mono)
      moreover from m n2 have "for_rows_upto (bodyU m) rows = (o2, True)" by simp
      ultimately show "for_rows_upto (bodyU m) (r # rows) = (out, True)"
        using True out by (simp add: andthen_upto_ok)
    qed
    then show ?thesis ..
  qed
qed

lemma paginator_observed:
  assumes "paginator h a ps = Some out"
  shows "\<exists>n. paginator_upto n h a ps = (out, True)"
proof (cases "get h a ps")
  case (Inl e)
  with assms have "paginator_upto 0 h a ps = (out, True)"
    by (simp add: paginator_upto.simps [of _ h a ps] paginator.simps [of h a ps])
  then show ?thesis ..
next
  case (Inr page)
  obtain rows c where page: "page = (rows, c)" by (cases page)
  let ?firstU = "\<lambda>n. case map_of ps ''nested_names'' of
                   Some nested_names \<Rightarrow>
                     (case len_val nested_names of
                        Inl e \<Rightarrow> (failed e, True)
                      | Inr k \<Rightarrow>
                          if k > 1 then (failed (KeyError ''nested_names''), True)
                          else
                            for_rows_upto
                              (\<lambda>row.
                                 case child_of h a (AList.delete ''nested_names'' ps)
                                        nested_names row of
                                   Inl e \<Rightarrow> (failed e, True)
                                 | Inr child \<Rightarrow> paginator_upto n h child [])
                              rows)
                 | None \<Rightarrow> (emit rows [] finished, True)"
  let ?first = "case map_of ps ''nested_names'' of
                 Some nested_names \<Rightarrow>
                   (case len_val nested_names of
                      Inl e \<Rightarrow> Some (failed e)
                    | Inr k \<Rightarrow>
                        if k > 1 then Some (failed (KeyError ''nested_names''))
                        else
                          for_rows
                            (\<lambda>row.
                               case child_of h a (AList.delete ''nested_names'' ps)
                                      nested_names row of
                                 Inl e \<Rightarrow> Some (failed e)
                               | Inr child \<Rightarrow> paginator h child [])
                            rows)
               | None \<Rightarrow> Some (emit rows [] finished)"
  from assms Inr page obtain o3 where
    seq: "andthen ?first (drain h a c) = Some o3" and out: "out = emit [] [EvGet a ps] o3"
    by (auto simp add: paginator.simps [of h a ps])
  from seq obtain o1 where o1: "?first = Some o1"
    by (auto simp add: andthen_def split: option.splits)
  have "\<exists>n. \<forall>m\<ge>n. ?firstU m = (o1, True)"
  proof (cases "map_of ps ''nested_names''")
    case None
    with o1 show ?thesis by simp
  next
    case (Some v)
    show ?thesis
    proof (cases "len_val v")
      case (Inl e)
      with Some o1 show ?thesis by simp
    next
      case (Inr k)
      show ?thesis
      proof (cases "k > 1")
        case True
        with Some Inr o1 show ?thesis by simp
      next
        case False
        let ?body = "\<lambda>row. case child_of h a (AList.delete ''nested_names'' ps) v row of
                        Inl e \<Rightarrow> Some (failed e)
                      | Inr child \<Rightarrow> paginator h child []"
        let ?bodyU = "\<lambda>n row. case child_of h a (AList.delete ''nested_names'' ps) v row of
                        Inl e \<Rightarrow> (failed e, True)
                      | Inr child \<Rightarrow> paginator_upto n h child []"
        from Some Inr False o1 have "for_rows ?body rows = Some o1" by simp
        then have "\<exists>n. \<forall>m\<ge>n. for_rows_upto (?bodyU m) rows = (o1, True)"
        proof (rule for_rows_observed [rotated 2])
          fix r o2 assume "?body r = Some o2"
          then show "\<exists>n. ?bodyU n r = (o2, True)"
            by (auto split: sum.splits dest: paginator_flat_observed)
        next
          fix n m r o2 assume b: "?bodyU n r = (o2, True)" and le: "n \<le> m"
          show "?bodyU m r = (o2, True)"
          proof (cases "child_of h a (AList.delete ''nested_names'' ps) v r")
            case (Inl e)
            with b show ?thesis by simp
          next
            case (Inr child)
            with b have "paginator_upto n h child [] = (o2, True)" by simp
            then have "paginator_upto m h child [] = (o2, True)"
              using le by (rule paginator_upto_flat_mono)
            with Inr show ?thesis by simp
          qed
        qed
        with Some Inr False show ?thesis by simp
      qed
    qed
  qed
  then obtain n1 where n1: "\<forall>m\<ge>n1. ?firstU m = (o1, True)" ..
  have unfold: "paginator_upto m h a ps =
      (case andthen_upto (?firstU m) (drain_upto m h a c) of
         (out, ended) \<Rightarrow> (emit [] [EvGet a ps] out, ended))" for m
    by (subst paginator_upto.simps) (simp add: Inr page)
  show ?thesis
  proof (cases "raised o1 = None")
    case False
    with seq o1 have "o3 = o1" by (simp add: andthen_def)
    moreover from n1 have "?firstU n1 = (o1, True)" by simp
    ultimately have "paginator_upto n1 h a ps = (out, True)"
      unfolding unfold using False out by (simp add: andthen_upto_raised)
    then show ?thesis ..
  next
    case True
    with seq o1 obtain o2 where
      d: "drain h a c = Some o2" and o3: "o3 = emit (yielded o1) (requests o1) o2"
      by (auto simp add: andthen_def)
    from drain_observed [OF d] obtain n2 where "drain_upto n2 h a c = (o2, True)" ..
    then have "drain_upto (max n1 n2) h a c = (o2, True)"
      by (rule drain_upto_mono) simp
    moreover from n1 have "?firstU (max n1 n2) = (o1, True)" by simp
    ultimately have "paginator_upto (max n1 n2) h a ps = (out, True)"
      unfolding unfold using True out o3 by (simp add: andthen_upto_ok)
    then show ?thesis ..
  qed
qed

lemma client_list_observed:
  "client_list h name kwargs = Some out \<Longrightarrow> \<exists>n. client_list_upto n h name kwargs = (out, True)"
  by (auto simp add: client_list_upto_def client_list_def Let_def
      split: option.splits dest: paginator_observed)

lemma client_list_returns_iff_observed:
  "client_list h name kwargs = Some out \<longleftrightarrow>
   (\<exists>n. client_list_upto n h name kwargs = (out, True))"
  using client_list_observed client_list_upto_complete by blast








section \<open>Listing a simple entity\<close>



section \<open>Listing a two-level entity\<close>



section \<open>The access prober\<close>

text \<open>
  Claim C5. Let the probe raise an \<^verbatim>\<open>HTTPError\<close> carrying the permission message on
  exactly the catalog entities of a set \<open>D\<close> and succeed on all the others. Then
  \<^verbatim>\<open>get_accessible_endpoints()\<close> returns the catalog, in catalog order, restricted to
  the entities outside \<open>D\<close>.
\<close>

theorem accessible_endpoints_filter:
  assumes "\<forall>e \<in> set ENTITIES.
      (e \<in> D \<longrightarrow> (\<exists>m. snd (probe h e) = Some (HTTPError m) \<and> contains_str PERMISSION_MESSAGE m)) \<and>
      (e \<notin> D \<longrightarrow> snd (probe h e) = None)"
  shows "snd (get_accessible_endpoints h) = Inr (filter (\<lambda>e. e \<notin> D) ENTITIES)"
  using assms
  by (simp add: get_accessible_endpoints_def probe_loop_all_settled [where D = D])

text \<open>The sample denies \<^verbatim>\<open>offers\<close> and \<^verbatim>\<open>users\<close>: the other 23 entities are returned.\<close>

theorem accessible_endpoints_filter_witness:
  "snd (probe (paged (failing_server some_denied)) ''offers'') = Some (HTTPError DENIED_MESSAGE) \<and>
   contains_str PERMISSION_MESSAGE DENIED_MESSAGE \<and>
   snd (probe (paged (failing_server some_denied)) ''jobs'') = None \<and>
   snd (get_accessible_endpoints (paged (failing_server some_denied))) =
     Inr [''applications'', ''candidates'', ''close_reasons'', ''degrees'', ''departments'',
          ''job_posts'', ''jobs'', ''scorecards'', ''custom_fields'',
          ''demographics_question_sets'', ''demographics_questions'',
          ''demographics_answer_options'', ''demographics_answers'',
          ''applications.demographics_answers'', ''demographics_question_sets.questions'',
          ''demographics_answers.answer_options'', ''interviews'', ''applications.interviews'',
          ''sources'', ''rejection_reasons'', ''jobs.openings'', ''job_stages'', ''jobs.stages'']"
  using accessible_endpoints_filter [of "{''offers'', ''users''}" "paged (failing_server some_denied)"]
  by (simp add: ENTITIES_def probe_def paged_def failing_server_def some_denied_def
      denied_is_permission)

text \<open>
  Claim C7. Let \<open>E\<close> be a catalog entity whose probe raises an error that is not an
  \<^verbatim>\<open>HTTPError\<close> with the permission message, every entity before \<open>E\<close> being
  accessible or denied. Then \<^verbatim>\<open>get_accessible_endpoints()\<close> raises that error, the
  requests it has issued are those of the entities up to \<open>E\<close>, and no entity after
  \<open>E\<close> is probed.
\<close>

theorem fatal_probe_error_aborts:
  assumes cat: "ENTITIES = pre @ E # post"
    and pre: "\<forall>e \<in> set pre. snd (probe h e) = None \<or>
        (\<exists>m. snd (probe h e) = Some (HTTPError m) \<and> contains_str PERMISSION_MESSAGE m)"
    and err: "snd (probe h E) = Some err"
    and fatal: "\<not> (\<exists>m. err = HTTPError m \<and> contains_str PERMISSION_MESSAGE m)"
  shows "snd (get_accessible_endpoints h) = Inl err \<and>
         fst (get_accessible_endpoints h) = concat (map (\<lambda>e. fst (probe h e)) (pre @ [E])) \<and>
         (\<forall>e \<in> set post. EvGet (Direct e) [] \<notin> set (fst (get_accessible_endpoints h)))"
proof -
  have run: "get_accessible_endpoints h =
      (concat (map (\<lambda>e. fst (probe h e)) (pre @ [E])), Inl err)"
    unfolding get_accessible_endpoints_def cat
    using pre err fatal by (intro probe_loop_fatal) blast+
  have "EvGet (Direct e) [] \<notin> set (concat (map (\<lambda>e. fst (probe h e)) (pre @ [E])))"
    if "e \<in> set post" for e
  proof
    assume "EvGet (Direct e) [] \<in> set (concat (map (\<lambda>e. fst (probe h e)) (pre @ [E])))"
    then obtain e' where e': "e' \<in> set (pre @ [E])" "EvGet (Direct e) [] \<in> set (fst (probe h e'))"
      by auto
    with probe_events [of h e'] have "e = e'" by auto
    moreover have "set (pre @ [E]) \<inter> set post = {}"
      using distinct_ENTITIES unfolding cat by auto
    ultimately show False using that e'(1) by blast
  qed
  with run show ?thesis by simp
qed

text \<open>The sample fails with a server error on \<^verbatim>\<open>scorecards\<close>, the ninth entity.\<close>

theorem fatal_probe_error_aborts_witness:
  "ENTITIES = [''applications'', ''candidates'', ''close_reasons'', ''degrees'', ''departments'',
       ''job_posts'', ''jobs'', ''offers''] @ ''scorecards'' #
      [''users'', ''custom_fields'', ''demographics_question_sets'', ''demographics_questions'',
       ''demographics_answer_options'', ''demographics_answers'',
       ''applications.demographics_answers'', ''demographics_question_sets.questions'',
       ''demographics_answers.answer_options'', ''interviews'', ''applications.interviews'',
       ''sources'', ''rejection_reasons'', ''jobs.openings'', ''job_stages'', ''jobs.stages''] \<and>
   snd (probe (paged (failing_server server_error)) ''scorecards'') =
     Some (HTTPError SERVER_ERROR_MESSAGE) \<and>
   \<not> contains_str PERMISSION_MESSAGE SERVER_ERROR_MESSAGE \<and>
   snd (get_accessible_endpoints (paged (failing_server server_error))) =
     Inl (HTTPError SERVER_ERROR_MESSAGE) \<and>
   fst (get_accessible_endpoints (paged (failing_server server_error))) =
     [EvGet (Direct ''applications'') [], EvGet (Direct ''candidates'') [],
      EvGet (Direct ''close_reasons'') [], EvGet (Direct ''degrees'') [],
      EvGet (Direct ''departments'') [], EvGet (Direct ''job_posts'') [],
      EvGet (Direct ''jobs'') [], EvGet (Direct ''offers'') [],
      EvGet (Direct ''scorecards'') []]"
  using fatal_probe_error_aborts [of
      "[''applications'', ''candidates'', ''close_reasons'', ''degrees'', ''departments'',
        ''job_posts'', ''jobs'', ''offers'']"
      "''scorecards''"
      "[''users'', ''custom_fields'', ''demographics_question_sets'', ''demographics_questions'',
       ''demographics_answer_options'', ''demographics_answers'',
       ''applications.demographics_answers'', ''demographics_question_sets.questions'',
       ''demographics_answers.answer_options'', ''interviews'', ''applications.interviews'',
       ''sources'', ''rejection_reasons'', ''jobs.openings'', ''job_stages'', ''jobs.stages'']"
      "paged (failing_server server_error)" "HTTPError SERVER_ERROR_MESSAGE"]
  by (simp add: ENTITIES_def probe_def paged_def failing_server_def server_error_def
      denied_is_permission server_error_is_fatal)

text \<open>
  Claim C9, at the catalog entity \<^verbatim>\<open>applications.demographics_answers\<close>. The probe
  asks the client for the accessor named by the whole dotted string and issues its
  parameterless \<^verbatim>\<open>get\<close> there; the accessor of the root segment,
  \<^verbatim>\<open>applications\<close>, which \<^verbatim>\<open>list\<close> would read, gets no request.
\<close>

theorem probe_compound_entity:
  "probe (paged demo_server) ''applications.demographics_answers'' =
     ([EvGet (Direct ''applications.demographics_answers'') []], None) \<and>
   hd (split_dot ''applications.demographics_answers'') = ''applications'' \<and>
   EvGet (Direct ''applications'') [] \<notin>
     set (fst (probe (paged demo_server) ''applications.demographics_answers''))"
  by (simp add: probe_def paged_def)

section \<open>The health check\<close>

text \<open>
  Claim C6 as stated fails: \<^verbatim>\<open>health_check\<close> catches \<^verbatim>\<open>HTTPError\<close> only, so an
  exception of another kind raised by a probe leaves the method. Here the probe of
  \<^verbatim>\<open>jobs\<close> ends with such an exception.
\<close>

theorem health_check_raises:
  "health_check (paged (failing_server connection_lost)) = Inl (OtherError ''connection reset'')"
  by (simp add: health_check_def connection_lost_endpoints)

text \<open>
  Claim C6, amended. \<^verbatim>\<open>health_check()\<close> never raises an \<^verbatim>\<open>HTTPError\<close>. It returns
  \<open>(False, GRANT_MESSAGE)\<close> when \<^verbatim>\<open>get_accessible_endpoints()\<close> returns the empty
  list, \<open>(True, None)\<close> when it returns a non-empty list, and \<open>(False, m)\<close> when it
  raises an \<^verbatim>\<open>HTTPError\<close> with text \<open>m\<close>; an exception that is not an
  \<^verbatim>\<open>HTTPError\<close> propagates.
\<close>

theorem health_check_outcomes:
  "(snd (get_accessible_endpoints h) = Inr [] \<longrightarrow>
      health_check h = Inr (False, Some GRANT_MESSAGE)) \<and>
   (\<forall>eps. snd (get_accessible_endpoints h) = Inr eps \<and> eps \<noteq> [] \<longrightarrow>
      health_check h = Inr (True, None)) \<and>
   (\<forall>m. snd (get_accessible_endpoints h) = Inl (HTTPError m) \<longrightarrow>
      health_check h = Inr (False, Some m)) \<and>
   (\<forall>err. snd (get_accessible_endpoints h) = Inl err \<and> \<not> is_http err \<longrightarrow>
      health_check h = Inl err) \<and>
   (\<forall>m. health_check h \<noteq> Inl (HTTPError m))"
  by (auto simp add: health_check_def split: sum.splits error.splits)

text \<open>
  The four cases on the samples: every endpoint denied, every endpoint accessible, a
  server error, and an exception that is not an \<^verbatim>\<open>HTTPError\<close>.
\<close>

theorem health_check_outcomes_witness:
  "snd (get_accessible_endpoints (paged (failing_server all_denied))) = Inr [] \<and>
   health_check (paged (failing_server all_denied)) = Inr (False, Some GRANT_MESSAGE) \<and>
   snd (get_accessible_endpoints (paged demo_server)) = Inr ENTITIES \<and>
   health_check (paged demo_server) = Inr (True, None) \<and>
   snd (get_accessible_endpoints (paged (failing_server server_error))) =
     Inl (HTTPError SERVER_ERROR_MESSAGE) \<and>
   health_check (paged (failing_server server_error)) = Inr (False, Some SERVER_ERROR_MESSAGE) \<and>
   snd (get_accessible_endpoints (paged (failing_server connection_lost))) =
     Inl (OtherError ''connection reset'') \<and>
   health_check (paged (failing_server connection_lost)) = Inl (OtherError ''connection reset'')"
proof -
  note a = all_denied_endpoints and b = demo_endpoints and c = server_error_endpoints
    and d = connection_lost_endpoints
  have e: "ENTITIES \<noteq> []" by (simp add: ENTITIES_def)
  note t1 = health_check_outcomes [of "paged (failing_server all_denied)"]
  note t2 = health_check_outcomes [of "paged demo_server"]
  note t3 = health_check_outcomes [of "paged (failing_server server_error)"]
  note t4 = health_check_outcomes [of "paged (failing_server connection_lost)"]
  have 1: "health_check (paged (failing_server all_denied)) = Inr (False, Some GRANT_MESSAGE)"
    using t1 a by blast
  have 2: "health_check (paged demo_server) = Inr (True, None)"
    using t2 b e by blast
  have 3: "health_check (paged (failing_server server_error)) =
     Inr (False, Some SERVER_ERROR_MESSAGE)"
    using t3 c by blast
  have "\<not> is_http (OtherError ''connection reset'')" by simp
  then have 4: "health_check (paged (failing_server connection_lost)) =
     Inl (OtherError ''connection reset'')"
    using t4 d by blast
  from a 1 b 2 c 3 d 4 show ?thesis by blast
qed

section \<open>Compound names: later pages and longer chains\<close>

text \<open>
  Claim C2, at the name \<^verbatim>\<open>jobs.openings\<close> on the sample remote, whose jobs come on
  two pages of one job each. The openings of the first job are yielded, and then the
  second page is yielded as it is: the record of job 2, a parent-level record, is part
  of the output, and no request is made for its openings.
\<close>

theorem later_parent_pages_not_recursed:
  "client_list (paged demo_server) ''jobs.openings'' [] =
     Some \<lparr>yielded = [mk_row 101 ''opening'', mk_row 2 ''job''],
           requests =
             [EvGet (Direct ''jobs'')
                [(''per_page'', VInt 100), (''nested_names'', VList [''openings''])],
              EvGet (Related (Scoped (Direct ''jobs'')
                       [(''per_page'', VInt 100), (''object_id'', VInt 1)]) ''openings'') [],
              EvNext (Direct ''jobs'')],
           raised = None\<rparr>"
  by (simp add: list_eval)

text \<open>
  Claim C3, at the three-segment name \<^verbatim>\<open>jobs.openings.close_reason\<close>. After the first
  \<^verbatim>\<open>get\<close> the paginator raises \<^verbatim>\<open>KeyError\<close> and yields nothing: it reads
  \<^verbatim>\<open>params["nested_names"]\<close> after having popped that key.
\<close>

theorem three_segment_name_raises:
  "client_list (paged demo_server) ''jobs.openings.close_reason'' [] =
     Some \<lparr>yielded = [],
           requests =
             [EvGet (Direct ''jobs'')
                [(''per_page'', VInt 100),
                 (''nested_names'', VList [''openings'', ''close_reason''])]],
           raised = Some (KeyError ''nested_names'')\<rparr>"
  by (simp add: list_eval)

section \<open>The parameters of the page requests\<close>

text \<open>
  Claim C8, at \<^verbatim>\<open>list("jobs.openings", per_page=5)\<close> on the sample remote. The
  \<^verbatim>\<open>get\<close> on the root accessor carries \<^verbatim>\<open>per_page = 100\<close> in place of the caller's
  5, but the \<^verbatim>\<open>get\<close> on the child accessor is issued with no parameters at all: the
  recursive call hands the parameters to the call that scopes the parent, not to the
  child's paginator. So not every page request of the call carries the page size 100.
\<close>

theorem child_request_without_page_size:
  "map_option requests
     (client_list (paged demo_server) ''jobs.openings'' [(''per_page'', VInt 5)]) =
     Some [EvGet (Direct ''jobs'')
             [(''per_page'', VInt 100), (''nested_names'', VList [''openings''])],
           EvGet (Related (Scoped (Direct ''jobs'')
                    [(''per_page'', VInt 100), (''object_id'', VInt 1)]) ''openings'') [],
           EvNext (Direct ''jobs'')] \<and>
   map_option (\<lambda>out. list_all sized_100 (requests out))
     (client_list (paged demo_server) ''jobs.openings'' [(''per_page'', VInt 5)]) = Some False"
  by (simp add: demo_list_per_page_5 DEFAULT_ITEMS_PER_PAGE_def)



end
